theory Spec2Isabelle
  imports Main "HOL-Library.Sublist"
begin

section \<open>Python string operations used by the tree widget\<close>

text \<open>
  \<^verbatim>\<open>s.strip(chars)\<close> removes from both ends of \<open>s\<close> every character that is in
  \<open>chars\<close>.
\<close>

definition str_strip :: "string \<Rightarrow> string \<Rightarrow> string" where
  "str_strip chars s =
     rev (dropWhile (\<lambda>c. c \<in> set chars) (rev (dropWhile (\<lambda>c. c \<in> set chars) s)))"

text \<open>
  \<^verbatim>\<open>s.split(sep)\<close> cuts \<open>s\<close> at the non-overlapping occurrences of \<open>sep\<close>, found
  from the left; \<open>acc\<close> holds the current piece, reversed. The only separator of the
  source is the literal \<^verbatim>\<open>"/job/"\<close>; Python raises \<^verbatim>\<open>ValueError\<close> on an empty
  separator, which the source never passes.
\<close>

function str_split_from :: "string \<Rightarrow> string \<Rightarrow> string \<Rightarrow> string list" where
  "str_split_from sep acc [] = [rev acc]"
| "str_split_from sep acc (c # cs) =
     (if sep \<noteq> [] \<and> prefix sep (c # cs)
      then rev acc # str_split_from sep [] (drop (length sep) (c # cs))
      else str_split_from sep (c # acc) cs)"
  by pat_completeness auto
termination
  by (relation "measure (\<lambda>(sep, acc, s). length s)") auto

definition str_split :: "string \<Rightarrow> string \<Rightarrow> string list" where
  "str_split sep s = str_split_from sep [] s"

text \<open>\<^verbatim>\<open>sep.join(xs)\<close>.\<close>

fun str_join :: "string \<Rightarrow> string list \<Rightarrow> string" where
  "str_join sep [] = []"
| "str_join sep [x] = x"
| "str_join sep (x # y # ys) = x @ sep @ str_join sep (y # ys)"

text \<open>\<^verbatim>\<open>d.get(k, default)\<close> on a dictionary.\<close>

definition dict_get :: "('k \<rightharpoonup> 'v) \<Rightarrow> 'k \<Rightarrow> 'v \<Rightarrow> 'v" where
  "dict_get d k dflt = (case d k of None \<Rightarrow> dflt | Some v \<Rightarrow> v)"

section \<open>Data: raw descriptors, \<^verbatim>\<open>JobEntry\<close>, tree nodes\<close>

text \<open>
  An exception is a value: \<open>ClientError\<close> stands for whatever the Jenkins client raises
  when a request fails, \<open>KeyError k\<close> for a subscript \<^verbatim>\<open>d[k]\<close> on a missing key,
  \<open>TypeError k\<close> for a call with a keyword argument \<open>k\<close> that the function does not
  have.
\<close>

datatype error = ClientError | KeyError string | TypeError string

text \<open>
  A raw job descriptor is the dictionary the client returns for one job. The source reads
  the keys \<^verbatim>\<open>_class\<close>, \<^verbatim>\<open>name\<close>, \<^verbatim>\<open>url\<close>, \<^verbatim>\<open>color\<close> and \<^verbatim>\<open>jobs\<close>; a key that is
  absent is \<open>None\<close>.
\<close>

datatype entry = Entry
  (e_class: "string option")
  (e_name: "string option")
  (e_url: "string option")
  (e_color: "string option")
  (e_jobs: "entry list option")

record JobEntry =
  name :: string
  url :: string
  color :: string
  type :: string
  jobs :: "entry list"

text \<open>
  \<^verbatim>\<open>TreeNode\<close> and \<^verbatim>\<open>TreeControl\<close> belong to the widget framework. A tree is an arena:
  \<open>nodes\<close> maps a node id to its node, \<open>tree_id\<close> is the control's id counter (the id
  given last), a node lists the ids of its children. A new node is neither loaded nor
  expanded.
\<close>

record TreeNode =
  parent :: "nat option"
  label :: string
  data :: JobEntry
  children :: "nat list"
  loaded :: bool
  expanded :: bool

record JenkinsTree =
  nodes :: "nat \<rightharpoonup> TreeNode"
  tree_id :: nat
  has_focus :: bool

datatype message = JobClick string string | RootClick

text \<open>
  What the code obtains from outside the source files: the application's chicken-mode
  flag, \<^verbatim>\<open>urllib.parse.unquote\<close>, the answer of \<^verbatim>\<open>client.get_jobs(recursive=True)\<close>, and
  \<^verbatim>\<open>client.get_info_for_job\<close>, as a function of the job URL whose path it is given.
\<close>

record build_info =
  displayName :: string
  description :: string
  healthReport :: "string list"

record env =
  chicken_mode_enabled :: bool
  unquote :: "string \<Rightarrow> string"
  get_jobs :: "error + entry list"
  get_info_for_job :: "string \<Rightarrow> error + build_info"

definition type_map :: "string \<rightharpoonup> string" where
  "type_map =
     [''org.jenkinsci.plugins.workflow.job.WorkflowJob'' \<mapsto> ''job'',
      ''com.cloudbees.hudson.plugins.folder.Folder'' \<mapsto> ''folder'',
      ''org.jenkinsci.plugins.workflow.multibranch.WorkflowMultiBranchProject''
        \<mapsto> ''multibranch'']"

section \<open>The tree widget\<close>

text \<open>The constructor: the root node has id 0, label \<^verbatim>\<open>pipelines\<close> and type \<^verbatim>\<open>root\<close>.\<close>

definition root_data :: JobEntry where
  "root_data = \<lparr>name = ''root'', url = [], color = [], type = ''root'', jobs = []\<rparr>"

definition new_node :: "nat option \<Rightarrow> string \<Rightarrow> JobEntry \<Rightarrow> TreeNode" where
  "new_node p l d =
     \<lparr>parent = p, label = l, data = d, children = [], loaded = False, expanded = False\<rparr>"

definition init_tree :: JenkinsTree where
  "init_tree =
     \<lparr>nodes = [0 \<mapsto> new_node None ''pipelines'' root_data], tree_id = 0, has_focus = False\<rparr>"

text \<open>
  \<^verbatim>\<open>JenkinsTree.__init__(self, client=...)\<close> has the one keyword \<^verbatim>\<open>client\<close>. A call is
  given by the keywords it passes; a keyword that the constructor does not have
  raises \<^verbatim>\<open>TypeError\<close>, and no tree is made.
\<close>

definition JenkinsTree_init :: "string list \<Rightarrow> error + JenkinsTree" where
  "JenkinsTree_init kwargs =
     (case filter (\<lambda>k. k \<noteq> ''client'') kwargs of
        [] \<Rightarrow> Inr init_tree
      | k # _ \<Rightarrow> Inl (TypeError k))"

text \<open>
  \<^verbatim>\<open>node.add(label, data)\<close>: the control takes the next id, creates the child, appends it
  to the parent's children and registers it.
\<close>

definition add :: "nat \<Rightarrow> string \<Rightarrow> JobEntry \<Rightarrow> JenkinsTree \<Rightarrow> error + JenkinsTree" where
  "add node_id l d t =
     (case nodes t node_id of
        None \<Rightarrow> Inl (KeyError ''node'')
      | Some p \<Rightarrow>
          let i = tree_id t + 1 in
          Inr (t\<lparr>tree_id := i,
                 nodes := (nodes t)(node_id \<mapsto> p\<lparr>children := children p @ [i]\<rparr>,
                                    i \<mapsto> new_node (Some node_id) l d)\<rparr>))"

definition update_node :: "nat \<Rightarrow> (TreeNode \<Rightarrow> TreeNode) \<Rightarrow> JenkinsTree \<Rightarrow> JenkinsTree" where
  "update_node n f t =
     (case nodes t n of None \<Rightarrow> t | Some nd \<Rightarrow> t\<lparr>nodes := (nodes t)(n \<mapsto> f nd)\<rparr>)"

definition expand :: "nat \<Rightarrow> JenkinsTree \<Rightarrow> JenkinsTree" where
  "expand n t = update_node n (\<lambda>nd. nd\<lparr>expanded := True\<rparr>) t"

definition toggle :: "nat \<Rightarrow> JenkinsTree \<Rightarrow> JenkinsTree" where
  "toggle n t = update_node n (\<lambda>nd. nd\<lparr>expanded := \<not> expanded nd\<rparr>) t"

text \<open>
  The body of the loop of \<^verbatim>\<open>load_jobs\<close> up to the call of \<^verbatim>\<open>node.add\<close>: the label and the
  \<^verbatim>\<open>JobEntry\<close> of one raw descriptor, in the source's order of evaluation.
\<close>

definition full_name :: "string \<Rightarrow> string" where
  "full_name u = str_join ''/'' (drop 1 (str_split ''/job/'' (str_strip ''/'' u)))"

definition job_of_entry :: "env \<Rightarrow> entry \<Rightarrow> error + (string \<times> JobEntry)" where
  "job_of_entry ev e =
     (case e_class e of
        None \<Rightarrow> Inl (KeyError ''_class'')
      | Some cls \<Rightarrow>
          let typeof = dict_get type_map cls [] in
          (case (if chicken_mode_enabled ev then Inr ''chicken''
                 else (case e_name e of
                         None \<Rightarrow> Inl (KeyError ''name'')
                       | Some n \<Rightarrow> Inr (unquote ev n))) of
             Inl err \<Rightarrow> Inl err
           | Inr clean_name \<Rightarrow>
               (case e_url e of
                  None \<Rightarrow> Inl (KeyError ''url'')
                | Some u \<Rightarrow>
                    Inr (clean_name,
                         \<lparr>name = full_name u,
                          url = u,
                          color = (case e_color e of None \<Rightarrow> ''none'' | Some c \<Rightarrow> c),
                          type = typeof,
                          jobs = (case e_jobs e of None \<Rightarrow> [] | Some js \<Rightarrow> js)\<rparr>))))"

text \<open>
  A raw descriptor has the shape \<^verbatim>\<open>{_class, name, url, color?, jobs?}\<close>: the first
  three keys are always there. \<open>has_required\<close> says that the keys the loop subscripts
  are present (the name is not read in chicken mode).
\<close>

definition has_required :: "env \<Rightarrow> entry \<Rightarrow> bool" where
  "has_required ev e =
     (e_class e \<noteq> None \<and> e_url e \<noteq> None \<and> (chicken_mode_enabled ev \<or> e_name e \<noteq> None))"

text \<open>The loop of \<^verbatim>\<open>load_jobs\<close>: an exception leaves the children added so far.\<close>

fun add_entries :: "env \<Rightarrow> nat \<Rightarrow> entry list \<Rightarrow> JenkinsTree \<Rightarrow> error option \<times> JenkinsTree" where
  "add_entries ev n [] t = (None, t)"
| "add_entries ev n (e # es) t =
     (case job_of_entry ev e of
        Inl err \<Rightarrow> (Some err, t)
      | Inr (l, job) \<Rightarrow>
          (case add n l job t of
             Inl err \<Rightarrow> (Some err, t)
           | Inr t' \<Rightarrow> add_entries ev n es t'))"

definition load_jobs :: "env \<Rightarrow> nat \<Rightarrow> JenkinsTree \<Rightarrow> error option \<times> JenkinsTree" where
  "load_jobs ev n t =
     (case nodes t n of
        None \<Rightarrow> (Some (KeyError ''node''), t)
      | Some nd \<Rightarrow>
          (case (if type (data nd) = ''root'' then get_jobs ev else Inr (jobs (data nd))) of
             Inl err \<Rightarrow> (Some err, t)
           | Inr js \<Rightarrow>
               (case add_entries ev n js t of
                  (Some err, t') \<Rightarrow> (Some err, t')
                | (None, t') \<Rightarrow>
                    (None, expand n (update_node n (\<lambda>nd. nd\<lparr>loaded := True\<rparr>) t')))))"

definition on_mount :: "env \<Rightarrow> JenkinsTree \<Rightarrow> error option \<times> JenkinsTree" where
  "on_mount ev t = load_jobs ev 0 t"

text \<open>
  \<^verbatim>\<open>handle_tree_click\<close> returns the exception if one was raised, the messages emitted and
  the tree.
\<close>

definition handle_tree_click ::
  "env \<Rightarrow> nat \<Rightarrow> JenkinsTree \<Rightarrow> error option \<times> message list \<times> JenkinsTree" where
  "handle_tree_click ev n t =
     (case nodes t n of
        None \<Rightarrow> (Some (KeyError ''node''), [], t)
      | Some nd \<Rightarrow>
          if type (data nd) = ''job'' then (None, [JobClick (name (data nd)) (url (data nd))], t)
          else if name (data nd) = ''root'' then (None, [RootClick], t)
          else if \<not> loaded nd then
            (case load_jobs ev n t of
               (Some err, t') \<Rightarrow> (Some err, [], t')
             | (None, t') \<Rightarrow> (None, [], expand n t'))
          else (None, [], toggle n t))"

text \<open>A session of clicks on the nodes \<open>ns\<close>, one after the other.\<close>

fun clicks :: "env \<Rightarrow> nat list \<Rightarrow> JenkinsTree \<Rightarrow> JenkinsTree" where
  "clicks ev [] t = t"
| "clicks ev (n # ns) t = clicks ev ns (snd (snd (handle_tree_click ev n t)))"

section \<open>The label cache\<close>

text \<open>
  \<^verbatim>\<open>render_tree_label\<close> chooses an icon (a Unicode code point) and the styles of a label.
  A style is named by its key in the style table of the configuration.
\<close>

definition color_map :: "string \<rightharpoonup> nat" where
  "color_map =
     [''aborted'' \<mapsto> 0x274C, ''blue'' \<mapsto> 0x1F535, ''blue_anime'' \<mapsto> 0x1F504,
      ''disabled'' \<mapsto> 0x2B55, ''grey'' \<mapsto> 0x26AA, ''notbuilt'' \<mapsto> 0x23F3,
      ''red_anime'' \<mapsto> 0x1F504, ''red'' \<mapsto> 0x1F534, ''yellow'' \<mapsto> 0x1F7E1,
      ''none'' \<mapsto> 0x1F7E3]"

record rendered =
  icon :: nat
  label_text :: string
  styles :: "string list"
  tree_node :: nat

text \<open>
  The arguments of one call: the tree widget (\<^verbatim>\<open>self\<close>), the node, its type, and the
  four flags. The cache of \<^verbatim>\<open>lru_cache\<close> is keyed by all of them.
\<close>

type_synonym key = "nat \<times> nat \<times> string \<times> bool \<times> bool \<times> bool \<times> bool"

definition render_tree_label :: "(nat \<rightharpoonup> TreeNode) \<Rightarrow> key \<Rightarrow> rendered" where
  "render_tree_label ns k =
     (case k of (self, node, ty, is_expanded, is_cursor, is_hover, focus) \<Rightarrow>
        let hover = (if is_hover then [''node_on_hover''] else []);
            cursor = (if is_cursor \<and> focus then [''tree_on_cursor''] else []);
            l = (case ns node of None \<Rightarrow> [] | Some nd \<Rightarrow> label nd);
            c = (case ns node of None \<Rightarrow> [] | Some nd \<Rightarrow> color (data nd))
        in
        if ty = ''root'' then
          \<lparr>icon = 0x1F4C2, label_text = l, styles = hover @ cursor @ [''root_node''], tree_node = node\<rparr>
        else if ty = ''folder'' then
          \<lparr>icon = (if is_expanded then 0x1F4C2 else 0x1F4C1), label_text = l,
           styles = hover @ cursor @ [''folder''], tree_node = node\<rparr>
        else if ty = ''multibranch'' then
          \<lparr>icon = 0x1F331, label_text = l, styles = hover @ cursor @ [''multibranch_node''],
           tree_node = node\<rparr>
        else
          \<lparr>icon = dict_get color_map c 0x3F, label_text = l, styles = hover @ cursor @ [''node''],
           tree_node = node\<rparr>)"

text \<open>
  Modelled from the spec: the decorator \<^verbatim>\<open>functools.lru_cache\<close>, which the source applies
  to \<^verbatim>\<open>render_tree_label\<close> with \<^verbatim>\<open>maxsize=1024 * 32\<close> and whose code is not among the
  source files. The cache is keyed by the inputs of the call, bounded by its capacity,
  and evicts the least recently used entry before it inserts into a full cache. The
  cache lists its entries from the most recently used to the least recently used. A
  hit returns the stored value and moves the entry to the front; a miss calls \<open>f\<close> and
  stores the result at the front, in place of the least recently used entry when the
  cache is full. With \<open>maxsize = 0\<close> nothing is stored.
\<close>

definition lru_cache ::
  "nat \<Rightarrow> ('k \<Rightarrow> 'v) \<Rightarrow> 'k \<Rightarrow> ('k \<times> 'v) list \<Rightarrow> 'v \<times> ('k \<times> 'v) list" where
  "lru_cache maxsize f k cache =
     (case map_of cache k of
        Some v \<Rightarrow> (v, (k, v) # filter (\<lambda>p. fst p \<noteq> k) cache)
      | None \<Rightarrow>
          let v = f k in
          if maxsize = 0 then (v, cache)
          else if maxsize \<le> length cache then (v, (k, v) # butlast cache)
          else (v, (k, v) # cache))"

definition maxsize :: nat where
  "maxsize = 1024 * 32"

definition cached_render_tree_label ::
  "(nat \<rightharpoonup> TreeNode) \<Rightarrow> key \<Rightarrow> (key \<times> rendered) list \<Rightarrow> rendered \<times> (key \<times> rendered) list" where
  "cached_render_tree_label ns k cache = lru_cache maxsize (render_tree_label ns) k cache"

text \<open>The cache after the calls with the keys \<open>ks\<close>, in this order.\<close>

fun render_calls ::
  "(nat \<rightharpoonup> TreeNode) \<Rightarrow> key list \<Rightarrow> (key \<times> rendered) list \<Rightarrow> (key \<times> rendered) list" where
  "render_calls ns [] cache = cache"
| "render_calls ns (k # ks) cache = render_calls ns ks (snd (cached_render_tree_label ns k cache))"

section \<open>The application\<close>

text \<open>
  The container shows a list of widgets. \<^verbatim>\<open>call_later\<close> hands a callback to the
  framework, which runs it later: \<open>callbacks\<close> holds the callbacks handed over and not
  yet completed, in the order of their scheduling. \<open>set_job u\<close> is the closure
  \<^verbatim>\<open>set_job\<close> of a message with URL \<open>u\<close>.
\<close>

datatype widget =
  HomeInfo | BuildQueue | ExecutorStatus | JobInfo string string | BuildTable string

datatype callback = set_home | set_job string

record JenkinsTUI =
  current_node :: string
  container :: "widget list"
  callbacks :: "callback list"
  directory :: JenkinsTree

definition handle_root_click :: "JenkinsTUI \<Rightarrow> JenkinsTUI" where
  "handle_root_click app =
     (if current_node app \<noteq> ''root''
      then app\<lparr>current_node := ''root'', callbacks := callbacks app @ [set_home]\<rparr>
      else app)"







text \<open>
  \<^verbatim>\<open>action_refresh_tree\<close> makes a new tree widget with
  \<^verbatim>\<open>JenkinsTree(client=self.client, name="JenkinsTreeWidget")\<close> and then puts it into the
  side bar. When the constructor raises, the statements after it do not run.
\<close>

definition action_refresh_tree :: "JenkinsTUI \<Rightarrow> error option \<times> JenkinsTUI" where
  "action_refresh_tree app =
     (case JenkinsTree_init [''client'', ''name''] of
        Inl err \<Rightarrow> (Some err, app)
      | Inr d \<Rightarrow> (None, app\<lparr>directory := d\<rparr>))"

section \<open>Concrete inputs\<close>

text \<open>
  A server with a folder called \<^verbatim>\<open>root\<close> and a folder called \<^verbatim>\<open>team\<close>, each with
  one job, and two top-level jobs, the second of a class that \<open>type_map\<close> does not
  know and without a colour; every request succeeds. In \<open>failing_env\<close> every request
  fails.
\<close>

definition folder_class :: string where
  "folder_class = ''com.cloudbees.hudson.plugins.folder.Folder''"

definition job_class :: string where
  "job_class = ''org.jenkinsci.plugins.workflow.job.WorkflowJob''"

definition demo_jobs :: "entry list" where
  "demo_jobs =
     [Entry (Some folder_class) (Some ''root'') (Some ''http://jenkins/job/root/'') None
        (Some [Entry (Some job_class) (Some ''svc-c'')
                 (Some ''http://jenkins/job/root/job/svc-c/'') (Some ''blue'') None]),
      Entry (Some job_class) (Some ''svc-a'') (Some ''http://jenkins/job/svc-a/'')
        (Some ''blue'') None,
      Entry (Some ''hudson.model.FreeStyleProject'') (Some ''svc-b'')
        (Some ''http://jenkins/job/svc-b/'') None None,
      Entry (Some folder_class) (Some ''team'') (Some ''http://jenkins/job/team/'') None
        (Some [Entry (Some job_class) (Some ''svc-d'')
                 (Some ''http://jenkins/job/team/job/svc-d/'') (Some ''red'') None])]"

definition demo_info :: "string \<Rightarrow> error + build_info" where
  "demo_info u = Inr \<lparr>displayName = u, description = ''a job'', healthReport = []\<rparr>"

definition demo_env :: env where
  "demo_env =
     \<lparr>chicken_mode_enabled = False, unquote = (\<lambda>s. s), get_jobs = Inr demo_jobs,
      get_info_for_job = demo_info\<rparr>"

definition failing_env :: env where
  "failing_env =
     \<lparr>chicken_mode_enabled = False, unquote = (\<lambda>s. s), get_jobs = Inl ClientError,
      get_info_for_job = (\<lambda>u. Inl ClientError)\<rparr>"

definition demo_tree :: JenkinsTree where
  "demo_tree = snd (on_mount demo_env init_tree)"


definition demo_app :: JenkinsTUI where
  "demo_app =
     \<lparr>current_node = ''root'', container = [HomeInfo, BuildQueue, ExecutorStatus],
      callbacks = [], directory = demo_tree\<rparr>"


section \<open>Name derivation\<close>

lemma split_from_skip:
  "\<forall>i\<in>{0..<length s}. \<not> prefix sep (drop i (s @ rest)) \<Longrightarrow>
   str_split_from sep acc (s @ rest) = str_split_from sep (rev s @ acc) rest"
proof (induction s arbitrary: acc)
  case Nil
  then show ?case by simp
next
  case (Cons c cs)
  have h0: "\<not> prefix sep (c # cs @ rest)"
    using Cons.prems by force
  have hs: "\<forall>i\<in>{0..<length cs}. \<not> prefix sep (drop i (cs @ rest))"
  proof
    fix i assume "i \<in> {0..<length cs}"
    then have "Suc i \<in> {0..<length (c # cs)}" by simp
    then have "\<not> prefix sep (drop (Suc i) ((c # cs) @ rest))"
      using Cons.prems by blast
    then show "\<not> prefix sep (drop i (cs @ rest))" by simp
  qed
  show ?case using h0 Cons.IH [OF hs] by simp
qed

lemma split_from_sep:
  "sep \<noteq> [] \<Longrightarrow> str_split_from sep acc (sep @ rest) = rev acc # str_split_from sep [] rest"
  by (cases sep) simp_all

lemma no_sep_in_segment:
  assumes "sep = c # cs'" "c \<notin> set s"
  shows "\<forall>i\<in>{0..<length s}. \<not> prefix sep (drop i (s @ rest))"
proof
  fix i assume i: "i \<in> {0..<length s}"
  then have "drop i (s @ rest) = s ! i # drop (Suc i) (s @ rest)"
    by (simp add: Cons_nth_drop_Suc nth_append)
  moreover have "s ! i \<noteq> c" using assms(2) i by auto
  ultimately show "\<not> prefix sep (drop i (s @ rest))"
    using assms(1) by simp
qed

lemma split_from_segments:
  assumes "sep = c # cs'" "\<forall>s\<in>set segs. c \<notin> set s"
  shows "str_split_from sep acc (concat (map (\<lambda>s. sep @ s) segs)) = rev acc # segs"
  using assms(2)
proof (induction segs arbitrary: acc)
  case Nil
  then show ?case by simp
next
  case (Cons s ss)
  let ?rest = "concat (map (\<lambda>s. sep @ s) ss)"
  have "str_split_from sep acc (sep @ s @ ?rest) = rev acc # str_split_from sep [] (s @ ?rest)"
    by (rule split_from_sep) (simp add: assms(1))
  also have "str_split_from sep [] (s @ ?rest) = str_split_from sep (rev s @ []) ?rest"
    using Cons.prems by (intro split_from_skip no_sep_in_segment[OF assms(1)]) simp
  also have "\<dots> = s # ss"
    using Cons.IH Cons.prems by simp
  finally show ?case by simp
qed

lemma prefix_short_append:
  "length sep \<le> length x \<Longrightarrow> prefix sep (x @ y) = prefix sep x"
  by (metis prefix_append prefix_length_prefix prefix_order.dual_order.refl prefix_def)

lemma strip_slash_url:
  assumes "b \<noteq> CHR ''/''" "s \<noteq> []" "CHR ''/'' \<notin> set s"
  shows "str_strip ''/'' ((b # bs) @ m @ s @ ''/'') = (b # bs) @ m @ s"
proof -
  have "last s \<noteq> CHR ''/''" using assms(2,3) last_in_set by metis
  then obtain t z where s: "s = t @ [z]" "z \<noteq> CHR ''/''"
    using assms(2) by (metis append_butlast_last_id)
  show ?thesis using assms(1) s by (simp add: str_strip_def)
qed

text \<open>
  Claim C2, as stated, fails: the URL \<^verbatim>\<open>.../job/team/job/svc-a/\<close> yields the name
  \<^verbatim>\<open>team/svc-a\<close>, not \<^verbatim>\<open>svc-a\<close>. The code does not know the server's base URL; it
  drops what precedes the first \<^verbatim>\<open>/job/\<close> and nothing else.
\<close>

theorem name_derivation_counterexample:
  "full_name ''.../job/team/job/svc-a/'' = ''team/svc-a''
   \<and> full_name ''.../job/team/job/svc-a/'' \<noteq> ''svc-a''
   \<and> full_name ''http://jenkins/job/team/job/svc-a/'' = ''team/svc-a''"
  by (simp add: full_name_def str_split_def str_strip_def)

text \<open>
  Claim C2, amended: the name of a node is what follows the first \<^verbatim>\<open>/job/\<close> of the
  URL, with every later \<^verbatim>\<open>/job/\<close> replaced by \<^verbatim>\<open>/\<close>. For a URL made of a base in
  which no \<^verbatim>\<open>/job/\<close> starts, then \<^verbatim>\<open>/job/s\<close> for each segment \<open>s\<close> of a non-empty list
  of non-empty segments without \<^verbatim>\<open>/\<close>, then a final \<^verbatim>\<open>/\<close>, the name is the segments
  joined by \<^verbatim>\<open>/\<close>: all of them, the folder segments included.
\<close>

theorem name_derivation:
  assumes "base \<noteq> [] \<and> hd base \<noteq> CHR ''/''"
    and "\<forall>i\<in>{0..<length base}. \<not> prefix ''/job/'' (drop i (base @ ''/job/''))"
    and "\<forall>s\<in>set segs. s \<noteq> [] \<and> CHR ''/'' \<notin> set s"
    and "segs \<noteq> []"
  shows "full_name (base @ concat (map (\<lambda>s. ''/job/'' @ s) segs) @ ''/'') = str_join ''/'' segs"
proof -
  let ?sep = "''/job/''"
  let ?f = "\<lambda>s. ?sep @ s"
  obtain b bs where base: "base = b # bs" "b \<noteq> CHR ''/''"
    using assms(1) by (cases base) auto
  obtain init l where segs: "segs = init @ [l]"
    using assms(4) by (metis append_butlast_last_id)
  have l: "l \<noteq> []" "CHR ''/'' \<notin> set l"
    using assms(3) segs by auto
  have "str_strip ''/'' ((b # bs) @ (concat (map ?f init) @ ?sep) @ l @ ''/'')
        = (b # bs) @ (concat (map ?f init) @ ?sep) @ l"
    using base(2) l by (rule strip_slash_url)
  then have stripped:
    "str_strip ''/'' (base @ concat (map ?f segs) @ ''/'') = base @ concat (map ?f segs)"
    using base(1) segs by simp
  have skip: "\<forall>i\<in>{0..<length base}. \<not> prefix ?sep (drop i (base @ concat (map ?f segs)))"
  proof
    fix i assume i: "i \<in> {0..<length base}"
    obtain x xs where "segs = x # xs" using assms(4) by (cases segs) auto
    then have "drop i (base @ concat (map ?f segs))
               = drop i (base @ ?sep) @ x @ concat (map ?f xs)"
      using i by simp
    moreover have "length ?sep \<le> length (drop i (base @ ?sep))"
      using i by simp
    ultimately have "prefix ?sep (drop i (base @ concat (map ?f segs)))
                     = prefix ?sep (drop i (base @ ?sep))"
      by (simp only: prefix_short_append)
    then show "\<not> prefix ?sep (drop i (base @ concat (map ?f segs)))"
      using assms(2) i by blast
  qed
  have "str_split_from ?sep [] (base @ concat (map ?f segs))
        = str_split_from ?sep (rev base @ []) (concat (map ?f segs))"
    using skip by (rule split_from_skip)
  also have "\<dots> = rev (rev base @ []) # segs"
    using assms(3) by (intro split_from_segments[where c = "CHR ''/''" and cs' = "''job/''"]) auto
  finally have "str_split_from ?sep [] (base @ concat (map ?f segs)) = base # segs"
    by simp
  then show ?thesis
    using stripped by (simp add: full_name_def str_split_def)
qed

text \<open>The amended claim C2 at the URL \<^verbatim>\<open>http://jenkins/job/team/job/svc-a/\<close>.\<close>

theorem name_derivation_witness:
  "full_name ''http://jenkins/job/team/job/svc-a/'' = ''team/svc-a''"
proof -
  have h: "\<forall>i\<in>{0..<length ''http://jenkins''}.
             \<not> prefix ''/job/'' (drop i (''http://jenkins'' @ ''/job/''))"
    by code_simp
  show ?thesis
    using name_derivation [of "''http://jenkins''" "[''team'', ''svc-a'']", OF _ h]
    by simp
qed

section \<open>The bound of the label cache\<close>

lemma lru_cache_length:
  "length c \<le> m \<Longrightarrow> length (snd (lru_cache m f k c)) \<le> m"
proof (cases "map_of c k")
  case None
  then show "length c \<le> m \<Longrightarrow> ?thesis"
    by (auto simp: lru_cache_def Let_def)
next
  case (Some v)
  then have "(k, v) \<in> set c" by (rule map_of_SomeD)
  then have "length (filter (\<lambda>p. fst p \<noteq> k) c) < length c"
    by (intro length_filter_less[where x = "(k, v)"]) auto
  then show "length c \<le> m \<Longrightarrow> ?thesis"
    using Some by (simp add: lru_cache_def)
qed

lemma lru_cache_miss:
  assumes "0 < m" "length c \<le> m" "k \<notin> fst ` set c"
  shows "snd (lru_cache m f k c) = take m ((k, f k) # c)"
proof -
  have none: "map_of c k = None"
    using assms(3) by (simp add: map_of_eq_None_iff)
  show ?thesis
  proof (cases "m \<le> length c")
    case True
    then have "length c = m" using assms(2) by simp
    then have "take m ((k, f k) # c) = (k, f k) # butlast c"
      using assms(1) by (cases m) (simp_all add: butlast_conv_take)
    then show ?thesis using none True assms(1) by (simp add: lru_cache_def Let_def)
  next
    case False
    then show ?thesis using none assms(1) by (simp add: lru_cache_def Let_def)
  qed
qed

lemma remdups_snoc: "remdups (xs @ [k]) = filter (\<lambda>x. x \<noteq> k) (remdups xs) @ [k]"
  by (induction xs) auto

lemma take_filter_hit:
  "distinct M \<Longrightarrow> k \<in> set (take (Suc c) M) \<Longrightarrow>
   take c (filter (\<lambda>x. x \<noteq> k) M) = filter (\<lambda>x. x \<noteq> k) (take (Suc c) M)"
proof (induction M arbitrary: c)
  case Nil
  then show ?case by simp
next
  case (Cons x xs)
  show ?case
  proof (cases "x = k")
    case True
    then have "k \<notin> set xs" using Cons.prems(1) by simp
    then have "filter (\<lambda>x. x \<noteq> k) xs = xs"
      by (auto simp: filter_id_conv)
    moreover have "k \<notin> set (take c xs)"
      using \<open>k \<notin> set xs\<close> by (meson in_set_takeD)
    then have "filter (\<lambda>x. x \<noteq> k) (take c xs) = take c xs"
      by (auto simp: filter_id_conv)
    ultimately show ?thesis using True by simp
  next
    case False
    then have "k \<in> set (take c xs)" using Cons.prems(2) by simp
    then obtain c' where c: "c = Suc c'" by (cases c) auto
    have "take c' (filter (\<lambda>x. x \<noteq> k) xs) = filter (\<lambda>x. x \<noteq> k) (take (Suc c') xs)"
      using Cons.prems(1) \<open>k \<in> set (take c xs)\<close> c by (intro Cons.IH) simp_all
    then show ?thesis using False c by simp
  qed
qed

lemma take_filter_miss:
  "k \<notin> set (take (Suc c) M) \<Longrightarrow> take c (filter (\<lambda>x. x \<noteq> k) M) = take c M"
proof (induction M arbitrary: c)
  case Nil
  then show ?case by simp
next
  case (Cons x xs)
  show ?case
  proof (cases c)
    case 0
    then show ?thesis by simp
  next
    case (Suc c')
    have "x \<noteq> k" and "k \<notin> set (take (Suc c') xs)"
      using Cons.prems Suc by auto
    then show ?thesis using Cons.IH[of c'] Suc by simp
  qed
qed

lemma map_of_keyed:
  "map_of (map (\<lambda>k. (k, f k)) L) k = (if k \<in> set L then Some (f k) else None)"
  by (induction L) auto

lemma lru_cache_mru:
  assumes "distinct M"
  shows "snd (lru_cache (Suc c) f k (map (\<lambda>k. (k, f k)) (take (Suc c) M)))
         = map (\<lambda>k. (k, f k)) (take (Suc c) (k # filter (\<lambda>x. x \<noteq> k) M))"
proof (cases "k \<in> set (take (Suc c) M)")
  case True
  let ?g = "\<lambda>k. (k, f k)"
  have "snd (lru_cache (Suc c) f k (map ?g (take (Suc c) M)))
        = ?g k # filter (\<lambda>p. fst p \<noteq> k) (map ?g (take (Suc c) M))"
    using True by (simp add: lru_cache_def map_of_keyed)
  also have "filter (\<lambda>p. fst p \<noteq> k) (map ?g (take (Suc c) M))
             = map ?g (filter (\<lambda>x. x \<noteq> k) (take (Suc c) M))"
    by (simp add: filter_map comp_def)
  also have "filter (\<lambda>x. x \<noteq> k) (take (Suc c) M) = take c (filter (\<lambda>x. x \<noteq> k) M)"
    using take_filter_hit[OF assms True] by simp
  finally show ?thesis by (simp add: take_map)
next
  case False
  let ?g = "\<lambda>k. (k, f k)"
  have "k \<notin> fst ` set (map ?g (take (Suc c) M))"
    using False by (simp add: image_image)
  then have "snd (lru_cache (Suc c) f k (map ?g (take (Suc c) M)))
        = take (Suc c) (?g k # map ?g (take (Suc c) M))"
    by (intro lru_cache_miss) simp_all
  also have "\<dots> = ?g k # map ?g (take c M)"
    by (simp add: take_map min_def)
  also have "take c M = take c (filter (\<lambda>x. x \<noteq> k) M)"
    using take_filter_miss[OF False] by simp
  finally show ?thesis by (simp add: take_map)
qed

lemma render_calls_snoc:
  "render_calls ns (ks @ [k]) c = snd (cached_render_tree_label ns k (render_calls ns ks c))"
  by (induction ks arbitrary: c) simp_all

lemma render_calls_mru:
  "render_calls ns ks []
   = map (\<lambda>k. (k, render_tree_label ns k)) (take maxsize (rev (remdups ks)))"
proof (induction ks rule: rev_induct)
  case Nil
  then show ?case by simp
next
  case (snoc k ks)
  obtain c where c: "maxsize = Suc c"
    by (cases maxsize) (simp_all add: maxsize_def)
  have d: "distinct (rev (remdups ks))" by simp
  have "render_calls ns (ks @ [k]) []
        = snd (lru_cache (Suc c) (render_tree_label ns) k
                 (map (\<lambda>k. (k, render_tree_label ns k)) (take (Suc c) (rev (remdups ks)))))"
    using snoc.IH c by (simp only: render_calls_snoc cached_render_tree_label_def)
  also have "\<dots> = map (\<lambda>k. (k, render_tree_label ns k))
                     (take (Suc c) (k # filter (\<lambda>x. x \<noteq> k) (rev (remdups ks))))"
    using d by (rule lru_cache_mru)
  also have "k # filter (\<lambda>x. x \<noteq> k) (rev (remdups ks)) = rev (remdups (ks @ [k]))"
    by (simp add: remdups_snoc rev_filter)
  finally show ?case using c by simp
qed

lemma render_calls_length:
  "length c \<le> maxsize \<Longrightarrow> length (render_calls ns ks c) \<le> maxsize"
proof (induction ks arbitrary: c)
  case Nil
  then show ?case by simp
next
  case (Cons k ks)
  have "length (snd (cached_render_tree_label ns k c)) \<le> maxsize"
    unfolding cached_render_tree_label_def using Cons.prems by (rule lru_cache_length)
  then show ?case using Cons.IH by simp
qed

lemma maxsize_value: "maxsize = 32768"
  by (simp add: maxsize_def)

text \<open>
  Claim C4: the cache of \<^verbatim>\<open>render_tree_label\<close> is keyed by the arguments of the call,
  never holds more than 32768 entries, and evicts the least recently used entry first.
  After any calls \<open>us\<close>, with keys repeated or not, starting from the empty cache, the
  keys of the cache are the 32768 distinct keys used last, the most recently used
  first: a key that is used again moves to the front, and the key that falls out is
  the one whose last use is the oldest. So after calls with more than 32768 distinct
  keys \<open>ks\<close> the cache holds exactly 32768 entries, and its keys are the last 32768
  keys of \<open>ks\<close>. From any cache of at most 32768 entries, any calls leave at most
  32768 entries. A call returns the value stored under its whole key when there is
  one, and the value of \<^verbatim>\<open>render_tree_label\<close> otherwise.
\<close>

theorem cache_bound:
  assumes "distinct ks" and "32768 < length ks" and "length c \<le> 32768"
  shows "map fst (render_calls ns us []) = take 32768 (rev (remdups us))
         \<and> length (render_calls ns ks []) = 32768
         \<and> map fst (render_calls ns ks []) = rev (drop (length ks - 32768) ks)
         \<and> length (render_calls ns ks' c) \<le> 32768
         \<and> fst (cached_render_tree_label ns k c)
             = (case map_of c k of None \<Rightarrow> render_tree_label ns k | Some v \<Rightarrow> v)"
proof -
  have keys: "map fst (render_calls ns xs []) = take 32768 (rev (remdups xs))" for xs
  proof -
    have "map fst (render_calls ns xs [])
          = map fst (map (\<lambda>k. (k, render_tree_label ns k)) (take maxsize (rev (remdups xs))))"
      by (simp only: render_calls_mru)
    also have "\<dots> = take maxsize (rev (remdups xs))"
      by (simp add: comp_def)
    finally show ?thesis
      by (simp only: maxsize_value)
  qed
  have same: "remdups ks = ks"
    using assms(1) by (rule distinct_remdups_id)
  have B: "map fst (render_calls ns ks []) = rev (drop (length ks - 32768) ks)"
    by (simp only: keys same take_rev)
  have "length (map fst (render_calls ns ks [])) = 32768"
    using assms(2) by (simp add: B)
  then have A: "length (render_calls ns ks []) = 32768"
    by (simp only: length_map)
  have C: "length (render_calls ns ks' c) \<le> 32768"
    using render_calls_length[of c ns ks'] assms(3) by (simp add: maxsize_value)
  have D: "fst (cached_render_tree_label ns k c)
           = (case map_of c k of None \<Rightarrow> render_tree_label ns k | Some v \<Rightarrow> v)"
    by (simp add: cached_render_tree_label_def lru_cache_def Let_def split: option.splits)
  show ?thesis
    by (intro conjI) (rule keys, rule A, rule B, rule C, rule D)
qed

text \<open>
  Claim C4 at 32769 distinct keys: the cache holds 32768 entries. And after the calls
  with a first key, a second key and the first key again, the first key is in front.
\<close>

theorem cache_bound_witness:
  "length (render_calls Map.empty
             (map (\<lambda>i. (0, i, ''job'', False, False, False, False)) [0..<32769]) []) = 32768
   \<and> map fst (render_calls Map.empty
                [(0, 1, ''job'', False, False, False, False),
                 (0, 2, ''folder'', True, False, False, False),
                 (0, 1, ''job'', False, False, False, False)] [])
       = [(0, 1, ''job'', False, False, False, False),
          (0, 2, ''folder'', True, False, False, False)]"
proof -
  let ?ks = "map (\<lambda>i. (0::nat, i, ''job'', False, False, False, False)) [0..<32769]"
  let ?us = "[(0::nat, 1::nat, ''job'', False, False, False, False),
              (0, 2, ''folder'', True, False, False, False),
              (0, 1, ''job'', False, False, False, False)]"
  have "inj_on (\<lambda>i::nat. (0::nat, i, ''job'', False, False, False, False)) (set [0..<32769])"
    by (rule inj_onI) (simp only: prod.inject)
  then have d: "distinct ?ks"
    by (simp only: distinct_map distinct_upt simp_thms)
  have l: "32768 < length ?ks"
    by (simp only: length_map length_upt)
  have c: "length ([] :: (key \<times> rendered) list) \<le> 32768"
    by simp
  note all = cache_bound [OF d l c, where ns = Map.empty and us = ?us]
  have A: "map fst (render_calls Map.empty ?us []) = take 32768 (rev (remdups ?us))"
    using all by (rule conjunct1)
  have B: "length (render_calls Map.empty ?ks []) = 32768"
    using all [THEN conjunct2] by (rule conjunct1)
  have e: "take 32768 (rev (remdups ?us))
           = [(0, 1, ''job'', False, False, False, False),
              (0, 2, ''folder'', True, False, False, False)]"
    by simp
  show ?thesis
    by (intro conjI) (rule B, simp only: A e)
qed

section \<open>The application's handlers\<close>

text \<open>
  Claim C5: \<^verbatim>\<open>handle_root_click\<close> is idempotent. A second call in a row changes
  nothing, the two calls together schedule the swap to the home panel at most once,
  \<open>current_node\<close> is \<^verbatim>\<open>root\<close> afterwards, and the handler does nothing when
  \<open>current_node\<close> is already \<^verbatim>\<open>root\<close>.
\<close>

theorem root_click_idempotent:
  "handle_root_click (handle_root_click app) = handle_root_click app
   \<and> current_node (handle_root_click app) = ''root''
   \<and> (callbacks (handle_root_click (handle_root_click app)) = callbacks app
      \<or> callbacks (handle_root_click (handle_root_click app)) = callbacks app @ [set_home])
   \<and> handle_root_click (app\<lparr>current_node := ''root''\<rparr>) = app\<lparr>current_node := ''root''\<rparr>"
  by (simp add: handle_root_click_def)

text \<open>
  Claim C9 at the refresh of any application state: the constructor call of
  \<^verbatim>\<open>action_refresh_tree\<close> passes the keyword \<^verbatim>\<open>name\<close>, which \<^verbatim>\<open>JenkinsTree.__init__\<close> does
  not have, so the action raises \<^verbatim>\<open>TypeError\<close> before it reaches the side bar. The
  state stays as it was: for \<open>demo_app\<close> the tree is still \<open>demo_tree\<close> with its four
  loaded children, not a new tree.
\<close>

theorem refresh_raises:
  "action_refresh_tree app = (Some (TypeError ''name''), app)
   \<and> directory (snd (action_refresh_tree demo_app)) = demo_tree
   \<and> tree_id (directory (snd (action_refresh_tree demo_app))) = 4
   \<and> tree_id init_tree = 0"
proof -
  have r: "action_refresh_tree x = (Some (TypeError ''name''), x)" for x
    by (simp add: action_refresh_tree_def JenkinsTree_init_def)
  have t: "tree_id demo_tree = 4"
    by code_simp
  show ?thesis
    by (simp add: r t demo_app_def init_tree_def)
qed




section \<open>Loading and clicking\<close>

lemma add_Some:
  "nodes t m = Some p \<Longrightarrow>
   add m l d t
   = Inr (t\<lparr>tree_id := tree_id t + 1,
            nodes := (nodes t)(m \<mapsto> p\<lparr>children := children p @ [tree_id t + 1]\<rparr>,
                               tree_id t + 1 \<mapsto> new_node (Some m) l d)\<rparr>)"
  by (simp add: add_def Let_def)

lemma add_frame:
  assumes "add m l d t = Inr t'"
  shows "tree_id t' = Suc (tree_id t)"
    and "k \<le> tree_id t \<Longrightarrow> k \<noteq> m \<Longrightarrow> nodes t' k = nodes t k"
  using assms by (auto simp: add_def Let_def split: option.splits)

lemma add_entries_frame:
  "k \<le> tree_id t \<Longrightarrow> k \<noteq> m \<Longrightarrow>
   nodes (snd (add_entries ev m es t)) k = nodes t k
   \<and> tree_id t \<le> tree_id (snd (add_entries ev m es t))"
proof (induction es arbitrary: t)
  case Nil
  then show ?case by simp
next
  case (Cons e es)
  show ?case
  proof (cases "job_of_entry ev e")
    case (Inl err)
    then show ?thesis by simp
  next
    case (Inr lj)
    obtain l j where lj: "lj = (l, j)" by (cases lj)
    show ?thesis
    proof (cases "add m l j t")
      case (Inl err)
      then show ?thesis using Inr lj by simp
    next
      case r: (Inr t1)
      have id1: "tree_id t1 = Suc (tree_id t)" and fr1: "nodes t1 k = nodes t k"
        using add_frame[OF r] Cons.prems by auto
      have "nodes (snd (add_entries ev m es t1)) k = nodes t1 k
            \<and> tree_id t1 \<le> tree_id (snd (add_entries ev m es t1))"
        using Cons.prems id1 by (intro Cons.IH) auto
      then show ?thesis using Inr lj r id1 fr1 by simp
    qed
  qed
qed

lemma update_node_frame:
  "tree_id (update_node m f t) = tree_id t"
  "k \<noteq> m \<Longrightarrow> nodes (update_node m f t) k = nodes t k"
  by (auto simp: update_node_def split: option.splits)








section \<open>Loading descriptors\<close>

lemma job_of_entry_ok:
  assumes "has_required ev e"
  shows "\<exists>l j. job_of_entry ev e = Inr (l, j)
               \<and> color j = (case e_color e of None \<Rightarrow> ''none'' | Some c \<Rightarrow> c)
               \<and> type j = dict_get type_map (the (e_class e)) []
               \<and> jobs j = (case e_jobs e of None \<Rightarrow> [] | Some js \<Rightarrow> js)"
  using assms
  by (auto simp: has_required_def job_of_entry_def Let_def split: option.splits)

lemma type_of_entry:
  assumes "job_of_entry ev e = Inr (l, j)"
  shows "type j \<noteq> ''root''"
proof -
  obtain cls where c: "e_class e = Some cls" and t: "type j = dict_get type_map cls []"
    using assms
    by (auto simp: job_of_entry_def Let_def split: option.splits if_splits sum.splits)
  show ?thesis
    unfolding t by (simp add: dict_get_def type_map_def)
qed

lemma add_entries_ok:
  assumes "\<forall>e\<in>set es. has_required ev e"
  shows "nodes t n = Some nd \<Longrightarrow> n \<le> tree_id t \<Longrightarrow>
    \<exists>t'. add_entries ev n es t = (None, t')
       \<and> tree_id t' = tree_id t + length es
       \<and> nodes t' n
           = Some (nd\<lparr>children := children nd @ [tree_id t + 1 ..< tree_id t + 1 + length es]\<rparr>)
       \<and> (\<forall>i<length es. \<exists>l j. job_of_entry ev (es ! i) = Inr (l, j)
              \<and> nodes t' (tree_id t + 1 + i) = Some (new_node (Some n) l j))"
  using assms
proof (induction es arbitrary: t nd)
  case Nil
  then show ?case by simp
next
  case (Cons e es)
  obtain l j where lj: "job_of_entry ev e = Inr (l, j)"
    using job_of_entry_ok[of ev e] Cons.prems(3) by auto
  let ?c = "tree_id t + 1"
  let ?nd1 = "nd\<lparr>children := children nd @ [?c]\<rparr>"
  let ?t1 = "t\<lparr>tree_id := ?c,
               nodes := (nodes t)(n \<mapsto> ?nd1, ?c \<mapsto> new_node (Some n) l j)\<rparr>"
  have a: "add n l j t = Inr ?t1"
    using Cons.prems(1) by (rule add_Some)
  have n1: "nodes ?t1 n = Some ?nd1" using Cons.prems(2) by simp
  have i1: "n \<le> tree_id ?t1" using Cons.prems(2) by simp
  have r: "\<forall>e\<in>set es. has_required ev e" using Cons.prems(3) by simp
  obtain t' where t': "add_entries ev n es ?t1 = (None, t')"
    "tree_id t' = tree_id ?t1 + length es"
    "nodes t' n = Some (?nd1\<lparr>children := children ?nd1
                         @ [tree_id ?t1 + 1 ..< tree_id ?t1 + 1 + length es]\<rparr>)"
    "\<forall>i<length es. \<exists>l j. job_of_entry ev (es ! i) = Inr (l, j)
        \<and> nodes t' (tree_id ?t1 + 1 + i) = Some (new_node (Some n) l j)"
    using Cons.IH[OF n1 i1 r] by blast
  have first: "nodes t' ?c = Some (new_node (Some n) l j)"
  proof -
    have "nodes (snd (add_entries ev n es ?t1)) ?c = nodes ?t1 ?c"
      using add_entries_frame[of ?c ?t1 n ev es] Cons.prems(2) by simp
    then show ?thesis using t'(1) by simp
  qed
  have res: "add_entries ev n (e # es) t = (None, t')"
    using lj a t'(1) by simp
  have id: "tree_id t' = tree_id t + length (e # es)"
    using t'(2) by simp
  have "?c < ?c + length (e # es)" by simp
  then have "[?c ..< ?c + length (e # es)] = ?c # [Suc ?c ..< ?c + length (e # es)]"
    by (rule upt_conv_Cons)
  then have "[?c] @ [Suc ?c ..< Suc ?c + length es] = [?c ..< ?c + length (e # es)]"
    by simp
  then have ch: "nodes t' n
      = Some (nd\<lparr>children := children nd @ [?c ..< ?c + length (e # es)]\<rparr>)"
    using t'(3) by simp
  have each: "\<forall>i<length (e # es). \<exists>l j. job_of_entry ev ((e # es) ! i) = Inr (l, j)
        \<and> nodes t' (?c + i) = Some (new_node (Some n) l j)"
  proof (intro allI impI)
    fix i assume i: "i < length (e # es)"
    show "\<exists>l j. job_of_entry ev ((e # es) ! i) = Inr (l, j)
        \<and> nodes t' (?c + i) = Some (new_node (Some n) l j)"
    proof (cases i)
      case 0
      then show ?thesis using lj first by simp
    next
      case (Suc k)
      then have "k < length es" using i by simp
      then show ?thesis using t'(4) Suc by simp
    qed
  qed
  show ?case
    using res id ch each by blast
qed


lemma load_jobs_ok:
  assumes "nodes t n = Some nd" and "n \<le> tree_id t"
    and "(if type (data nd) = ''root'' then get_jobs ev else Inr (jobs (data nd))) = Inr es"
    and "\<forall>e\<in>set es. has_required ev e"
  shows "fst (load_jobs ev n t) = None
    \<and> nodes (snd (load_jobs ev n t)) n
        = Some (nd\<lparr>children := children nd @ [tree_id t + 1 ..< tree_id t + 1 + length es],
                   loaded := True, expanded := True\<rparr>)
    \<and> (\<forall>i<length es. \<exists>l j. job_of_entry ev (es ! i) = Inr (l, j)
          \<and> nodes (snd (load_jobs ev n t)) (tree_id t + 1 + i) = Some (new_node (Some n) l j))"
proof -
  obtain t' where t': "add_entries ev n es t = (None, t')"
    "nodes t' n
       = Some (nd\<lparr>children := children nd @ [tree_id t + 1 ..< tree_id t + 1 + length es]\<rparr>)"
    "\<forall>i<length es. \<exists>l j. job_of_entry ev (es ! i) = Inr (l, j)
        \<and> nodes t' (tree_id t + 1 + i) = Some (new_node (Some n) l j)"
    using add_entries_ok[OF assms(4,1,2)] by blast
  let ?t2 = "expand n (update_node n (\<lambda>nd. nd\<lparr>loaded := True\<rparr>) t')"
  have l: "load_jobs ev n t = (None, ?t2)"
    using assms(1,3) t'(1) by (simp add: load_jobs_def)
  have self: "nodes ?t2 n
      = Some (nd\<lparr>children := children nd @ [tree_id t + 1 ..< tree_id t + 1 + length es],
                 loaded := True, expanded := True\<rparr>)"
    using t'(2) by (simp add: expand_def update_node_def)
  have other: "\<And>k. k \<noteq> n \<Longrightarrow> nodes ?t2 k = nodes t' k"
    by (simp add: expand_def update_node_frame)
  have each: "\<forall>i<length es. \<exists>l j. job_of_entry ev (es ! i) = Inr (l, j)
          \<and> nodes ?t2 (tree_id t + 1 + i) = Some (new_node (Some n) l j)"
  proof (intro allI impI)
    fix i assume "i < length es"
    then obtain l j where "job_of_entry ev (es ! i) = Inr (l, j)"
      "nodes t' (tree_id t + 1 + i) = Some (new_node (Some n) l j)"
      using t'(3) by blast
    moreover have "tree_id t + 1 + i \<noteq> n" using assms(2) by simp
    ultimately show "\<exists>l j. job_of_entry ev (es ! i) = Inr (l, j)
          \<and> nodes ?t2 (tree_id t + 1 + i) = Some (new_node (Some n) l j)"
      using other by simp
  qed
  show ?thesis
    using self each by (simp add: l)
qed

text \<open>
  Claim C6: when the request for the hierarchy fails during the load of the root, the
  tree is left exactly as it was, so the root is still not loaded and has no new child,
  and the failure is returned to the caller. This holds for the root of a new tree in
  particular.
\<close>

theorem load_failure_rollback:
  assumes "nodes t n = Some nd" and "type (data nd) = ''root''" and "get_jobs ev = Inl err"
  shows "load_jobs ev n t = (Some err, t) \<and> on_mount ev init_tree = (Some err, init_tree)"
  using assms by (simp add: load_jobs_def on_mount_def init_tree_def new_node_def root_data_def)

text \<open>Claim C6 on a new tree whose client fails: the root stays unloaded, without children.\<close>

theorem load_failure_rollback_witness:
  "on_mount failing_env init_tree = (Some ClientError, init_tree)
   \<and> nodes (snd (on_mount failing_env init_tree)) 0
       = Some \<lparr>parent = None, label = ''pipelines'', data = root_data, children = [],
               loaded = False, expanded = False\<rparr>"
proof -
  have n: "nodes init_tree 0 = Some (new_node None ''pipelines'' root_data)"
    by (simp add: init_tree_def)
  have r: "type (data (new_node None ''pipelines'' root_data)) = ''root''"
    by (simp add: new_node_def root_data_def)
  have f: "get_jobs failing_env = Inl ClientError"
    by (simp add: failing_env_def)
  show ?thesis
    using load_failure_rollback [OF n r f] by (simp add: init_tree_def new_node_def)
qed

text \<open>
  Claim C7: a load whose descriptors all have the keys \<^verbatim>\<open>_class\<close>, \<^verbatim>\<open>name\<close> and \<^verbatim>\<open>url\<close>
  raises nothing and marks the node loaded, with one more child for each descriptor.
  The child made from the \<open>i\<close>-th descriptor has colour \<^verbatim>\<open>none\<close> when the descriptor
  has no \<^verbatim>\<open>color\<close>, and the empty type when \<open>type_map\<close> does not know its class.
\<close>

theorem defaults_never_abort:
  assumes "nodes t n = Some nd" and "n \<le> tree_id t"
    and "(if type (data nd) = ''root'' then get_jobs ev else Inr (jobs (data nd))) = Inr es"
    and "\<forall>e\<in>set es. has_required ev e"
    and "i < length es"
  shows "fst (load_jobs ev n t) = None
    \<and> (\<exists>nd'. nodes (snd (load_jobs ev n t)) n = Some nd' \<and> loaded nd'
          \<and> length (children nd') = length (children nd) + length es)
    \<and> (\<exists>l j. nodes (snd (load_jobs ev n t)) (tree_id t + 1 + i) = Some (new_node (Some n) l j)
          \<and> (e_color (es ! i) = None \<longrightarrow> color j = ''none'')
          \<and> (type_map (the (e_class (es ! i))) = None \<longrightarrow> type j = []))"
proof -
  note ok = load_jobs_ok[OF assms(1-4)]
  obtain l j where lj: "job_of_entry ev (es ! i) = Inr (l, j)"
    "nodes (snd (load_jobs ev n t)) (tree_id t + 1 + i) = Some (new_node (Some n) l j)"
    using ok assms(5) by blast
  have "has_required ev (es ! i)" using assms(4,5) by simp
  then have "color j = (case e_color (es ! i) of None \<Rightarrow> ''none'' | Some c \<Rightarrow> c)"
    and "type j = dict_get type_map (the (e_class (es ! i))) []"
    using job_of_entry_ok[of ev "es ! i"] lj(1) by auto
  then have d: "e_color (es ! i) = None \<longrightarrow> color j = ''none''"
    "type_map (the (e_class (es ! i))) = None \<longrightarrow> type j = []"
    by (simp_all add: dict_get_def)
  have A: "fst (load_jobs ev n t) = None"
    using ok by simp
  have B: "\<exists>nd'. nodes (snd (load_jobs ev n t)) n = Some nd' \<and> loaded nd'
          \<and> length (children nd') = length (children nd) + length es"
    using ok by (simp del: upt_Suc)
  have C: "\<exists>l j. nodes (snd (load_jobs ev n t)) (tree_id t + 1 + i) = Some (new_node (Some n) l j)
          \<and> (e_color (es ! i) = None \<longrightarrow> color j = ''none'')
          \<and> (type_map (the (e_class (es ! i))) = None \<longrightarrow> type j = [])"
    using lj(2) d by (intro exI[of _ l] exI[of _ j]) simp
  show ?thesis
    by (intro conjI) (rule A, rule B, rule C)
qed

text \<open>
  Claim C7 on the load of the root from \<open>demo_jobs\<close>: the third descriptor has no colour
  and an unknown class, and becomes node 3.
\<close>

theorem defaults_never_abort_witness:
  "fst (load_jobs demo_env 0 init_tree) = None
   \<and> (\<exists>l j. nodes (snd (load_jobs demo_env 0 init_tree)) 3 = Some (new_node (Some 0) l j)
         \<and> color j = ''none'' \<and> type j = [])"
proof -
  have n: "nodes init_tree 0 = Some (new_node None ''pipelines'' root_data)"
    by (simp add: init_tree_def)
  have i: "0 \<le> tree_id init_tree" by simp
  have s: "(if type (data (new_node None ''pipelines'' root_data)) = ''root''
            then get_jobs demo_env
            else Inr (jobs (data (new_node None ''pipelines'' root_data)))) = Inr demo_jobs"
    by (simp add: new_node_def root_data_def demo_env_def)
  have r: "\<forall>e\<in>set demo_jobs. has_required demo_env e"
    by (simp add: demo_jobs_def has_required_def)
  have k: "2 < length demo_jobs"
    by (simp add: demo_jobs_def)
  have c: "e_color (demo_jobs ! 2) = None"
    and m: "type_map (the (e_class (demo_jobs ! 2))) = None"
    by (simp_all add: demo_jobs_def type_map_def)
  have "tree_id init_tree = 0"
    by (simp add: init_tree_def)
  then show ?thesis
    using defaults_never_abort [OF n i s r k] c m by (simp add: numeral_3_eq_3)
qed


text \<open>
  Claim C10: a child made from a descriptor without \<^verbatim>\<open>jobs\<close> has the empty list as its
  seed. It is never of type \<^verbatim>\<open>root\<close>, so loading it reads this seed and asks the
  client nothing: the load raises nothing, adds no node, and only sets the child's
  \<open>loaded\<close> and \<open>expanded\<close>; its list of children stays empty.
\<close>

theorem empty_seed_load:
  assumes "nodes t p = Some pd" and "p \<le> tree_id t"
    and "has_required ev e" and "e_jobs e = None"
  shows "\<exists>t1 cd. add_entries ev p [e] t = (None, t1)
           \<and> nodes t1 (tree_id t + 1) = Some cd
           \<and> jobs (data cd) = [] \<and> children cd = [] \<and> \<not> loaded cd
           \<and> load_jobs ev (tree_id t + 1) t1
               = (None, t1\<lparr>nodes := (nodes t1)(tree_id t + 1 \<mapsto>
                                      cd\<lparr>loaded := True, expanded := True\<rparr>)\<rparr>)"
proof -
  have r: "\<forall>x\<in>set [e]. has_required ev x" using assms(3) by simp
  obtain t1 l j where t1: "add_entries ev p [e] t = (None, t1)"
    "job_of_entry ev e = Inr (l, j)"
    "nodes t1 (tree_id t + 1) = Some (new_node (Some p) l j)"
    using add_entries_ok[OF r assms(1,2)] by fastforce
  have j: "jobs j = []"
    using job_of_entry_ok[OF assms(3)] t1(2) assms(4) by auto
  have ty: "type j \<noteq> ''root''"
    using t1(2) by (rule type_of_entry)
  let ?cd = "new_node (Some p) l j"
  have l: "load_jobs ev (tree_id t + 1) t1
           = (None, t1\<lparr>nodes := (nodes t1)(tree_id t + 1 \<mapsto>
                                  ?cd\<lparr>loaded := True, expanded := True\<rparr>)\<rparr>)"
    using t1(3) j ty
    by (simp add: load_jobs_def expand_def update_node_def new_node_def)
  have c: "jobs (data ?cd) = [] \<and> children ?cd = [] \<and> \<not> loaded ?cd"
    using j by (simp add: new_node_def)
  show ?thesis
    using t1(1,3) c l by blast
qed

text \<open>Claim C10 on the descriptor of the job \<^verbatim>\<open>svc-a\<close>, added under the root of a new tree.\<close>

theorem empty_seed_load_witness:
  "\<exists>t1 cd. add_entries demo_env 0 [demo_jobs ! 1] init_tree = (None, t1)
           \<and> nodes t1 1 = Some cd
           \<and> jobs (data cd) = [] \<and> children cd = [] \<and> \<not> loaded cd
           \<and> load_jobs demo_env 1 t1
               = (None, t1\<lparr>nodes := (nodes t1)(1 \<mapsto> cd\<lparr>loaded := True, expanded := True\<rparr>)\<rparr>)"
proof -
  have n: "nodes init_tree 0 = Some (new_node None ''pipelines'' root_data)"
    by (simp add: init_tree_def)
  have i: "0 \<le> tree_id init_tree" by simp
  have r: "has_required demo_env (demo_jobs ! 1)"
    by (simp add: demo_jobs_def has_required_def)
  have s: "e_jobs (demo_jobs ! 1) = None"
    by (simp add: demo_jobs_def)
  have "tree_id init_tree + 1 = 1"
    by (simp add: init_tree_def)
  then show ?thesis
    using empty_seed_load [OF n i r s] by simp
qed

text \<open>
  Claim C3 at a folder whose name is \<^verbatim>\<open>root\<close>: after the load of the root from
  \<open>demo_jobs\<close>, node 1 is a folder, not loaded, with the name \<^verbatim>\<open>root\<close> taken from its
  URL. \<^verbatim>\<open>handle_tree_click\<close> tests the name, not the type: a click on the folder
  emits \<^verbatim>\<open>RootClick\<close> and leaves the tree as it is, so the folder is never loaded,
  however often it is clicked.
\<close>

theorem folder_named_root_click:
  "nodes demo_tree 1
     = Some \<lparr>parent = Some 0, label = ''root'',
             data = \<lparr>name = ''root'', url = ''http://jenkins/job/root/'', color = ''none'',
                      type = ''folder'',
                      jobs = [Entry (Some job_class) (Some ''svc-c'')
                                (Some ''http://jenkins/job/root/job/svc-c/'') (Some ''blue'')
                                None]\<rparr>,
             children = [], loaded = False, expanded = False\<rparr>
   \<and> handle_tree_click demo_env 1 demo_tree = (None, [RootClick], demo_tree)
   \<and> clicks demo_env [1, 1, 1] demo_tree = demo_tree"
proof -
  have n: "nodes demo_tree 1
     = Some \<lparr>parent = Some 0, label = ''root'',
             data = \<lparr>name = ''root'', url = ''http://jenkins/job/root/'', color = ''none'',
                      type = ''folder'',
                      jobs = [Entry (Some job_class) (Some ''svc-c'')
                                (Some ''http://jenkins/job/root/job/svc-c/'') (Some ''blue'')
                                None]\<rparr>,
             children = [], loaded = False, expanded = False\<rparr>"
    by code_simp
  have c: "handle_tree_click demo_env 1 demo_tree = (None, [RootClick], demo_tree)"
    using n by (simp add: handle_tree_click_def)
  show ?thesis
    using n c by simp
qed

end
